theory Spec2Isabelle
  imports Main "HOL-Library.Word"
begin

unbundle bit_operations_syntax

section \<open>Text\<close>

text \<open>
  A Python \<open>str\<close> is modelled as a \<open>string\<close>: one \<open>char\<close> per code point, for the code
  points 0 to 255.
\<close>

definition quote :: char where
  "quote = CHR 0x27"

text \<open>
  What \<open>\s\<close> matches in a \<open>str\<close> pattern: the white space of Unicode, which below code
  point 256 is tab, line feed, vertical tab, form feed, carriage return, the four
  separators 28 to 31, the space, NEL and the no-break space.
\<close>

definition is_space :: "char \<Rightarrow> bool" where
  "is_space c = (of_char c \<in> {9, 10, 11, 12, 13, 28, 29, 30, 31, 32, 133, 160 :: nat})"

text \<open>Lower case of an ASCII letter; every other character is left as it is.\<close>

definition lower :: "char \<Rightarrow> char" where
  "lower c =
     (case map_of (zip ''ABCDEFGHIJKLMNOPQRSTUVWXYZ'' ''abcdefghijklmnopqrstuvwxyz'') c of
        Some l \<Rightarrow> l
      | None \<Rightarrow> c)"

section \<open>extract_sql_url\<close>

text \<open>
  \<^verbatim>\<open>re.search(r"FROM\s+'([^']+)'", sql, re.IGNORECASE | re.DOTALL)\<close>, piece by piece.
  \<open>match_FROM\<close> consumes the four letters in either case. \<open>match_here\<close> is the pattern
  anchored at the head of its argument and returns group 1: after the keyword the greedy
  \<open>\s+\<close> takes the whole run of white space (giving a character back leaves a white
  space where the quote is required), then comes the quote, then the greedy \<open>[^']+\<close>
  takes the whole run up to the next quote (giving a character back leaves a character
  that is no quote where the closing quote is required), then the closing quote.
\<close>

definition is_FROM :: "string \<Rightarrow> bool" where
  "is_FROM kw = (map lower kw = ''from'')"

definition match_FROM :: "string \<Rightarrow> string option" where
  "match_FROM s = (if is_FROM (take 4 s) then Some (drop 4 s) else None)"

definition match_literal :: "string \<Rightarrow> string option" where
  "match_literal s =
     (case s of
        [] \<Rightarrow> None
      | q # r \<Rightarrow>
          if q \<noteq> quote then None
          else let body = takeWhile (\<lambda>c. c \<noteq> quote) r;
                   after = dropWhile (\<lambda>c. c \<noteq> quote) r
               in if body = [] then None
                  else (case after of [] \<Rightarrow> None | _ # _ \<Rightarrow> Some body))"

definition match_here :: "string \<Rightarrow> string option" where
  "match_here s =
     (case match_FROM s of
        None \<Rightarrow> None
      | Some r \<Rightarrow>
          if takeWhile is_space r = [] then None
          else match_literal (dropWhile is_space r))"

text \<open>\<open>re.search\<close> tries the start positions from left to right and keeps the first match.\<close>

fun re_search :: "string \<Rightarrow> string option" where
  "re_search [] = match_here []"
| "re_search (c # cs) =
     (case match_here (c # cs) of Some g \<Rightarrow> Some g | None \<Rightarrow> re_search cs)"

definition extract_sql_url :: "string \<Rightarrow> string option" where
  "extract_sql_url sql = (case re_search sql of Some g \<Rightarrow> Some g | None \<Rightarrow> None)"

text \<open>
  The pattern in the words of the specification, at position \<open>i\<close> of the text: the keyword
  in any case, one or more white-space characters, a quote, the contents \<open>u\<close> without a
  quote in them, the closing quote. \<open>literal_at\<close> admits every single-quoted literal,
  the empty one too; \<open>pattern_at\<close> asks for contents that are not empty, as the
  expression \<open>[^']+\<close> does.
\<close>

definition literal_at :: "string \<Rightarrow> nat \<Rightarrow> string \<Rightarrow> bool" where
  "literal_at sql i u =
     (\<exists>kw ws rest. drop i sql = kw @ ws @ [quote] @ u @ [quote] @ rest \<and> i \<le> length sql
        \<and> is_FROM kw \<and> ws \<noteq> [] \<and> (\<forall>c \<in> set ws. is_space c)
        \<and> quote \<notin> set u)"

definition pattern_at :: "string \<Rightarrow> nat \<Rightarrow> string \<Rightarrow> bool" where
  "pattern_at sql i u = (literal_at sql i u \<and> u \<noteq> [])"

text \<open>The first occurrence: the pattern stands at \<open>i\<close> and at no position before \<open>i\<close>.\<close>

definition first_at :: "string \<Rightarrow> nat \<Rightarrow> string \<Rightarrow> bool" where
  "first_at sql i u = (pattern_at sql i u \<and> (\<forall>j < i. \<forall>v. \<not> pattern_at sql j v))"

section \<open>Exceptions\<close>

text \<open>
  A raised exception is a value: its class and the text \<open>str(e)\<close>. \<open>PermissionError\<close> and
  \<open>FileExistsError\<close> are subclasses of \<open>OSError\<close>; every class here is a subclass of
  \<open>Exception\<close>.
\<close>

datatype exc_class =
  OSError | PermissionError | FileExistsError
  | ValueError | UnicodeEncodeError | RuntimeError | ParseError | TokenError

datatype exn = Exn exc_class string

fun str_exn :: "exn \<Rightarrow> string" where
  "str_exn (Exn c msg) = msg"

fun isinstance_OSError :: "exn \<Rightarrow> bool" where
  "isinstance_OSError (Exn c msg) = (c = OSError \<or> c = PermissionError \<or> c = FileExistsError)"

section \<open>extract_partition_column\<close>

text \<open>
  The tree that \<open>sqlglot.parse_one\<close> returns. An \<open>Expression\<close> has a class and its
  \<open>args\<close>, a dictionary in insertion order from argument names to values; a value is an
  expression, a string or a flag, and a list-valued argument is spread over consecutive
  entries of the same name. The classes are those of \<open>sqlglot.exp\<close> that the code names
  or that the queries of the specification contain; \<open>exp_Func\<close> stands for a function
  call such as \<open>LOWER(name)\<close>. \<open>isinstance\<close> compares classes: an object of a subclass
  of a class that the code tests carries the tested class.
\<close>

datatype exp_class =
  exp_Select | exp_From | exp_Table | exp_Where | exp_And | exp_Or | exp_Not | exp_Paren
  | exp_EQ | exp_In | exp_GT | exp_Column | exp_Identifier | exp_Literal | exp_Var
  | exp_Star | exp_Null | exp_Func | exp_Subquery | exp_Other

datatype node = Expression exp_class "(string \<times> node) list" | Text string | Flag bool

fun isinstance :: "node \<Rightarrow> exp_class \<Rightarrow> bool" where
  "isinstance (Expression c as) c' = (c = c')"
| "isinstance _ c' = False"

fun is_expression :: "node \<Rightarrow> bool" where
  "is_expression (Expression c as) = True"
| "is_expression _ = False"

text \<open>\<open>e.args.get(key)\<close>, and the properties \<open>this\<close> and \<open>left\<close> (which is \<open>this\<close>).\<close>

fun arg :: "node \<Rightarrow> string \<Rightarrow> node option" where
  "arg (Expression c as) key = map_of as key"
| "arg _ key = None"

definition this :: "node \<Rightarrow> node option" where
  "this e = arg e ''this''"

definition left :: "node \<Rightarrow> node option" where
  "left e = this e"

text \<open>
  \<open>e.name\<close> is \<open>e.text("this")\<close>: the argument itself when it is a string, the string
  inside an identifier, a literal or a variable, the name of a star or a null, and the
  empty string otherwise.
\<close>

definition this_text :: "node \<Rightarrow> string" where
  "this_text f = (case this f of Some (Text s) \<Rightarrow> s | _ \<Rightarrow> [])"

definition name :: "node \<Rightarrow> string" where
  "name e =
     (case this e of
        Some (Text s) \<Rightarrow> s
      | Some (Expression c as) \<Rightarrow>
          if c = exp_Identifier \<or> c = exp_Literal \<or> c = exp_Var
            then this_text (Expression c as)
          else if c = exp_Star then ''*''
          else if c = exp_Null then ''NULL''
          else []
      | _ \<Rightarrow> [])"

text \<open>
  \<open>iter_expressions\<close> yields the expressions among the values of \<open>args\<close>, in order, and
  \<open>bfs\<close> is the breadth-first walk that \<open>find\<close> and \<open>find_all\<close> use: a queue, the node
  at its head yielded and its children appended.
\<close>

fun iter_expressions :: "node \<Rightarrow> node list" where
  "iter_expressions (Expression c as) = filter is_expression (map snd as)"
| "iter_expressions _ = []"

fun weight :: "node \<Rightarrow> nat" where
  "weight (Expression c as) = Suc (sum_list (map (\<lambda>(k, v). weight v) as))"
| "weight _ = 1"

lemma weight_iter_expressions: "sum_list (map weight (iter_expressions n)) < weight n"
proof (cases n)
  case (Expression c as)
  have "sum_list (map weight (filter is_expression (map snd as)))
          \<le> sum_list (map (\<lambda>(k, v). weight v) as)"
    by (induction as) auto
  then show ?thesis using Expression by simp
qed simp_all

function bfs :: "node list \<Rightarrow> node list" where
  "bfs [] = []"
| "bfs (n # queue) = n # bfs (queue @ iter_expressions n)"
  by pat_completeness auto
termination
proof (relation "measure (\<lambda>q. sum_list (map weight q))")
  show "wf (measure (\<lambda>q. sum_list (map weight q)))" by simp
next
  fix n :: node and queue :: "node list"
  have "sum_list (map weight (iter_expressions n)) < weight n"
    by (rule weight_iter_expressions)
  then show "(queue @ iter_expressions n, n # queue) \<in> measure (\<lambda>q. sum_list (map weight q))"
    by simp
qed

definition find_all :: "exp_class list \<Rightarrow> node \<Rightarrow> node list" where
  "find_all types e = filter (\<lambda>n. \<exists>c \<in> set types. isinstance n c) (bfs [e])"

definition find_first :: "exp_class \<Rightarrow> node \<Rightarrow> node option" where
  "find_first c e = (case find_all [c] e of [] \<Rightarrow> None | n # _ \<Rightarrow> Some n)"

text \<open>
  The loop over the conditions: the first one that yields a column ends it with the
  column's name.
\<close>

definition condition_column :: "node \<Rightarrow> node option" where
  "condition_column condition =
     (if isinstance condition exp_EQ then
        (case left condition of
           Some l \<Rightarrow> if isinstance l exp_Column then Some l else None
         | None \<Rightarrow> None)
      else if isinstance condition exp_In then
        (case this condition of
           Some t \<Rightarrow> if isinstance t exp_Column then Some t else None
         | None \<Rightarrow> None)
      else None)"

fun scan_conditions :: "node list \<Rightarrow> string option" where
  "scan_conditions [] = None"
| "scan_conditions (condition # rest) =
     (case condition_column condition of
        Some column \<Rightarrow> Some (name column)
      | None \<Rightarrow> scan_conditions rest)"

text \<open>
  The body of the \<open>try\<close>, with the parser as a parameter: \<open>parse_one\<close> returns the tree
  or raises. \<open>extract_partition_column\<close> is the body inside \<open>except Exception: return None\<close>.
\<close>

definition partition_column_body :: "(string \<Rightarrow> exn + node) \<Rightarrow> string \<Rightarrow> exn + string option" where
  "partition_column_body parse_one sql =
     (case parse_one sql of
        Inl e \<Rightarrow> Inl e
      | Inr parsed \<Rightarrow>
          (case find_first exp_Where parsed of
             None \<Rightarrow> Inr None
           | Some where_node \<Rightarrow> Inr (scan_conditions (find_all [exp_EQ, exp_In] where_node))))"

definition extract_partition_column :: "(string \<Rightarrow> exn + node) \<Rightarrow> string \<Rightarrow> string option" where
  "extract_partition_column parse_one sql =
     (case partition_column_body parse_one sql of Inl e \<Rightarrow> None | Inr r \<Rightarrow> r)"











section \<open>Paths\<close>

text \<open>
  A \<open>pathlib\<close> path: whether it is anchored at the root, and its components. \<open>name\<close>,
  \<open>parent\<close>, \<open>suffix\<close> and \<open>with_suffix\<close> are the methods of \<open>PurePath\<close>: the suffix
  of a name starts at its last dot, unless that dot is the first or the last character,
  and \<open>with_suffix\<close> puts the new suffix in the place of the old one, or after the name
  when the name has none. It raises \<open>ValueError\<close> on a suffix that is not a dot followed
  by characters other than the separator, and on a path with no name.
\<close>

datatype path = Path (is_absolute: bool) (parts: "string list")

definition path_name :: "path \<Rightarrow> string" where
  "path_name p = (if parts p = [] then [] else last (parts p))"

definition parent :: "path \<Rightarrow> path" where
  "parent p = Path (is_absolute p) (butlast (parts p))"

fun join_parts :: "string list \<Rightarrow> string" where
  "join_parts [] = []"
| "join_parts [x] = x"
| "join_parts (x # y # ys) = x @ ''/'' @ join_parts (y # ys)"

definition str_path :: "path \<Rightarrow> string" where
  "str_path p =
     (if is_absolute p then ''/'' @ join_parts (parts p)
      else if parts p = [] then ''.'' else join_parts (parts p))"

text \<open>\<open>s.rfind(c)\<close>: the index of the last \<open>c\<close> in \<open>s\<close>, or \<open>-1\<close>.\<close>

fun rfind :: "string \<Rightarrow> char \<Rightarrow> int" where
  "rfind [] c = -1"
| "rfind (x # xs) c =
     (let r = rfind xs c in if 0 \<le> r then r + 1 else if x = c then 0 else -1)"

definition suffix :: "path \<Rightarrow> string" where
  "suffix p =
     (let i = rfind (path_name p) (CHR ''.'')
      in if 0 < i \<and> i < int (length (path_name p)) - 1 then drop (nat i) (path_name p) else [])"

definition with_suffix :: "path \<Rightarrow> string \<Rightarrow> exn + path" where
  "with_suffix p new_suffix =
     (if CHR ''/'' \<in> set new_suffix then Inl (Exn ValueError ''Invalid suffix'')
      else if (new_suffix \<noteq> [] \<and> hd new_suffix \<noteq> CHR ''.'') \<or> new_suffix = ''.''
        then Inl (Exn ValueError ''Invalid suffix'')
      else if path_name p = [] then Inl (Exn ValueError (str_path p @ '' has an empty name''))
      else
        let old_suffix = suffix p;
            new_name =
              (if old_suffix = [] then path_name p @ new_suffix
               else take (length (path_name p) - length old_suffix) (path_name p) @ new_suffix)
        in Inr (Path (is_absolute p) (butlast (parts p) @ [new_name])))"

section \<open>The file system\<close>

text \<open>
  The contents of a file and the payload of a write: text or bytes. The file system maps
  the paths of the regular files to their contents. The operating system decides whether
  a call succeeds: \<open>os env phase call\<close> is the \<open>OSError\<close> that the call raises in that
  phase, or nothing when it succeeds; the phases are the attempts, by number, and the
  clean-up after the loop. Every exception of a system call is an \<open>OSError\<close>. A write
  that fails leaves \<open>torn env k\<close> characters of the payload in the file, and a text that
  the encoding of the file cannot represent makes the write raise \<open>UnicodeEncodeError\<close>
  before anything is written.
\<close>

datatype payload = Str string | Bytes "8 word list"

datatype mode = Mode_w | Mode_wb

type_synonym files = "path \<Rightarrow> payload option"

datatype os_error = OS_Error string | Permission_Error string | File_Exists_Error string

fun raised :: "os_error \<Rightarrow> exn" where
  "raised (OS_Error msg) = Exn OSError msg"
| "raised (Permission_Error msg) = Exn PermissionError msg"
| "raised (File_Exists_Error msg) = Exn FileExistsError msg"

datatype phase = Attempt nat | Cleanup

datatype os_call = Call_mkdir | Call_unlink | Call_open | Call_write | Call_replace

record env =
  os :: "phase \<Rightarrow> os_call \<Rightarrow> os_error option"
  torn :: "nat \<Rightarrow> nat"
  encode_error :: "string \<Rightarrow> string option"

fun take_payload :: "nat \<Rightarrow> payload \<Rightarrow> payload" where
  "take_payload n (Str s) = Str (take n s)"
| "take_payload n (Bytes b) = Bytes (take n b)"

fun empty_file :: "mode \<Rightarrow> payload" where
  "empty_file Mode_w = Str []"
| "empty_file Mode_wb = Bytes []"

definition no_such_file :: exn where
  "no_such_file = Exn OSError ''[Errno 2] No such file or directory''"

definition mkdir :: "env \<Rightarrow> phase \<Rightarrow> path \<Rightarrow> files \<Rightarrow> (exn + unit) \<times> files" where
  "mkdir env ph dir fs =
     (case os env ph Call_mkdir of Some err \<Rightarrow> (Inl (raised err), fs) | None \<Rightarrow> (Inr (), fs))"

definition exists :: "path \<Rightarrow> files \<Rightarrow> bool" where
  "exists p fs = (fs p \<noteq> None)"

definition unlink :: "env \<Rightarrow> phase \<Rightarrow> path \<Rightarrow> files \<Rightarrow> (exn + unit) \<times> files" where
  "unlink env ph p fs =
     (case os env ph Call_unlink of
        Some err \<Rightarrow> (Inl (raised err), fs)
      | None \<Rightarrow>
          if fs p = None then (Inl no_such_file, fs)
          else (Inr (), fs(p := None)))"

definition open_file :: "env \<Rightarrow> phase \<Rightarrow> path \<Rightarrow> mode \<Rightarrow> files \<Rightarrow> (exn + unit) \<times> files" where
  "open_file env ph p m fs =
     (case os env ph Call_open of
        Some err \<Rightarrow> (Inl (raised err), fs)
      | None \<Rightarrow> (Inr (), fs(p \<mapsto> empty_file m)))"

definition unencodable :: "env \<Rightarrow> payload \<Rightarrow> string option" where
  "unencodable env content = (case content of Str s \<Rightarrow> encode_error env s | Bytes b \<Rightarrow> None)"

definition write_file :: "env \<Rightarrow> nat \<Rightarrow> path \<Rightarrow> payload \<Rightarrow> files \<Rightarrow> (exn + unit) \<times> files" where
  "write_file env k p content fs =
     (case unencodable env content of
        Some msg \<Rightarrow> (Inl (Exn UnicodeEncodeError msg), fs)
      | None \<Rightarrow>
          (case os env (Attempt k) Call_write of
             Some err \<Rightarrow> (Inl (raised err), fs(p \<mapsto> take_payload (torn env k) content))
           | None \<Rightarrow> (Inr (), fs(p \<mapsto> content))))"

definition replace :: "env \<Rightarrow> phase \<Rightarrow> path \<Rightarrow> path \<Rightarrow> files \<Rightarrow> (exn + unit) \<times> files" where
  "replace env ph src dst fs =
     (case os env ph Call_replace of
        Some err \<Rightarrow> (Inl (raised err), fs)
      | None \<Rightarrow>
          if fs src = None then (Inl no_such_file, fs)
          else if src = dst then (Inr (), fs)
          else (Inr (), fs(dst := fs src, src := None)))"

section \<open>atomic_write\<close>

text \<open>\<open>sub in s\<close> for strings.\<close>

fun starts_with :: "string \<Rightarrow> string \<Rightarrow> bool" where
  "starts_with s [] = True"
| "starts_with [] (b # bs) = False"
| "starts_with (a # as) (b # bs) = (a = b \<and> starts_with as bs)"

fun contains :: "string \<Rightarrow> string \<Rightarrow> bool" where
  "contains [] sub = (sub = [])"
| "contains (c # cs) sub = (starts_with (c # cs) sub \<or> contains cs sub)"

definition used_by_another_process :: string where
  "used_by_another_process = ''being used by another process''"

definition permission_denied :: string where
  "permission_denied = ''Permission denied''"

definition is_lock_error :: "exn \<Rightarrow> bool" where
  "is_lock_error e =
     (isinstance_OSError e \<and>
      (contains (str_exn e) used_by_another_process \<or> contains (str_exn e) permission_denied))"

text \<open>
  The body of the \<open>try\<close> in attempt \<open>k\<close>: make the parent directory, remove a stale
  staging file (an \<open>OSError\<close> of that removal is passed over), write the staging file
  and close it, rename it onto the target.
\<close>

definition unlink_stale :: "env \<Rightarrow> phase \<Rightarrow> path \<Rightarrow> files \<Rightarrow> files" where
  "unlink_stale env ph temp_path fs =
     (if exists temp_path fs then snd (unlink env ph temp_path fs) else fs)"

definition attempt_body ::
  "env \<Rightarrow> nat \<Rightarrow> path \<Rightarrow> path \<Rightarrow> mode \<Rightarrow> payload \<Rightarrow> files \<Rightarrow> (exn + unit) \<times> files" where
  "attempt_body env k path temp_path m content fs =
     (case mkdir env (Attempt k) (parent path) fs of
        (Inl e, fs1) \<Rightarrow> (Inl e, fs1)
      | (Inr _, fs1) \<Rightarrow>
          (case open_file env (Attempt k) temp_path m (unlink_stale env (Attempt k) temp_path fs1) of
             (Inl e, fs2) \<Rightarrow> (Inl e, fs2)
           | (Inr _, fs2) \<Rightarrow>
               (case write_file env k temp_path content fs2 of
                  (Inl e, fs3) \<Rightarrow> (Inl e, fs3)
                | (Inr _, fs3) \<Rightarrow> replace env (Attempt k) temp_path path fs3)))"

text \<open>
  The loop \<open>for attempt in range(max_retries)\<close>, over the attempts that remain. The state
  is the file system and the trace of what the loop did: the attempts it started, the
  exceptions its handlers caught, and its sleeps in milliseconds (\<open>time.sleep\<close> is given
  \<open>(2 ** attempt) * 0.01\<close> seconds). The loop ends with \<open>Returned\<close> at the \<open>return\<close>, and
  with \<open>Fell_through last_error\<close> at a \<open>break\<close> or at the end of the range.
\<close>

datatype event = Started nat | Caught exn | Slept nat

record state =
  files_of :: files
  trace :: "event list"

datatype loop_result = Returned | Fell_through "exn option"

fun attempts ::
  "env \<Rightarrow> int \<Rightarrow> path \<Rightarrow> path \<Rightarrow> mode \<Rightarrow> payload \<Rightarrow> nat list \<Rightarrow> exn option \<Rightarrow> state
     \<Rightarrow> loop_result \<times> state" where
  "attempts env max_retries path temp_path m content [] last_error st = (Fell_through last_error, st)"
| "attempts env max_retries path temp_path m content (attempt # rest) last_error st =
     (case attempt_body env attempt path temp_path m content (files_of st) of
        (Inr _, fs) \<Rightarrow> (Returned, \<lparr>files_of = fs, trace = trace st @ [Started attempt]\<rparr>)
      | (Inl e, fs) \<Rightarrow>
          if isinstance_OSError e then
            if is_lock_error e \<and> int attempt < max_retries - 1 then
              attempts env max_retries path temp_path m content rest (Some e)
                \<lparr>files_of = fs,
                 trace = trace st @ [Started attempt, Caught e, Slept (2 ^ attempt * 10)]\<rparr>
            else
              (Fell_through (Some e),
               \<lparr>files_of = fs, trace = trace st @ [Started attempt, Caught e]\<rparr>)
          else
            (Fell_through (Some e),
             \<lparr>files_of = fs, trace = trace st @ [Started attempt, Caught e]\<rparr>))"

definition staging_path :: "path \<Rightarrow> exn + path" where
  "staging_path path = with_suffix path ''.tmp''"

fun mode_of :: "payload \<Rightarrow> mode" where
  "mode_of (Bytes b) = Mode_wb"
| "mode_of (Str s) = Mode_w"

definition atomic_write ::
  "env \<Rightarrow> path \<Rightarrow> payload \<Rightarrow> int \<Rightarrow> files \<Rightarrow> (exn + unit) \<times> state" where
  "atomic_write env path content max_retries fs =
     (case staging_path path of
        Inl e \<Rightarrow> (Inl e, \<lparr>files_of = fs, trace = []\<rparr>)
      | Inr temp_path \<Rightarrow>
          (case attempts env max_retries path temp_path (mode_of content) content
                  [0 ..< nat max_retries] None \<lparr>files_of = fs, trace = []\<rparr> of
             (Returned, st) \<Rightarrow> (Inr (), st)
           | (Fell_through last_error, st) \<Rightarrow>
               (Inl (case last_error of
                       Some e \<Rightarrow> e
                     | None \<Rightarrow> Exn RuntimeError (''Failed to write '' @ str_path path)),
                st\<lparr>files_of := unlink_stale env Cleanup temp_path (files_of st)\<rparr>)))"

text \<open>What the trace shows: the exceptions caught, the sleeps, the number of attempts.\<close>

fun caught :: "event list \<Rightarrow> exn list" where
  "caught [] = []"
| "caught (Caught e # evs) = e # caught evs"
| "caught (_ # evs) = caught evs"

fun sleeps :: "event list \<Rightarrow> nat list" where
  "sleeps [] = []"
| "sleeps (Slept ms # evs) = ms # sleeps evs"
| "sleeps (_ # evs) = sleeps evs"

fun started :: "event list \<Rightarrow> nat list" where
  "started [] = []"
| "started (Started k # evs) = k # started evs"
| "started (_ # evs) = started evs"

text \<open>
  A target is persistently locked when every attempt, from whatever state of the file
  system, ends in a lock error.
\<close>

definition persistently_locked :: "env \<Rightarrow> path \<Rightarrow> path \<Rightarrow> payload \<Rightarrow> bool" where
  "persistently_locked env path temp_path content =
     (\<forall>k fs. \<exists>e. fst (attempt_body env k path temp_path (mode_of content) content fs) = Inl e
        \<and> is_lock_error e)"

text \<open>
  Three environments and two targets for the runs below: a target that another process
  holds (every rename fails with the text of Windows error 32, and so does the removal of
  the staging file in the clean-up), a parent directory that may not be created, and a
  full disk.
\<close>

definition sharing_violation :: os_error where
  "sharing_violation = Permission_Error
     ''[WinError 32] The process cannot access the file because it is being used by another process''"

definition locked_env :: env where
  "locked_env =
     \<lparr>os = (\<lambda>ph c. if c = Call_replace \<or> (ph = Cleanup \<and> c = Call_unlink)
                     then Some sharing_violation else None),
      torn = (\<lambda>k. 0),
      encode_error = (\<lambda>s. None)\<rparr>"



definition no_space :: os_error where
  "no_space = OS_Error ''[Errno 28] No space left on device''"

definition disk_full_env :: env where
  "disk_full_env =
     \<lparr>os = (\<lambda>ph c. if c = Call_write then Some no_space else None),
      torn = (\<lambda>k. 1),
      encode_error = (\<lambda>s. None)\<rparr>"


definition data_json :: path where
  "data_json = Path False [''cache'', ''data.json'']"

definition data_csv :: path where
  "data_csv = Path False [''cache'', ''data.csv'']"

definition data_tmp :: path where
  "data_tmp = Path False [''cache'', ''data.tmp'']"

section \<open>Cache keys\<close>

text \<open>
  \<open>str.encode()\<close> is UTF-8: a code point below 128 is one byte, and a code point from 128
  to 255 is two bytes.
\<close>

definition encode_char :: "char \<Rightarrow> 8 word list" where
  "encode_char c =
     (let n = (of_char c :: nat)
      in if n < 128 then [of_nat n] else [of_nat (192 + n div 64), of_nat (128 + n mod 64)])"

definition encode :: "string \<Rightarrow> 8 word list" where
  "encode s = concat (map encode_char s)"

text \<open>
  \<open>hashlib.sha256\<close>, as FIPS 180-4 defines it: the message is padded with the byte
  \<open>0x80\<close>, zero bytes and its length in bits as eight bytes, to a multiple of 64 bytes;
  every block of 64 bytes is sixteen big-endian words, extended to a schedule of
  sixty-four; sixty-four rounds on eight working variables, added to the hash value.
\<close>

definition rotr :: "nat \<Rightarrow> 32 word \<Rightarrow> 32 word" where
  "rotr n w = drop_bit n w OR push_bit (32 - n) w"

definition Ch :: "32 word \<Rightarrow> 32 word \<Rightarrow> 32 word \<Rightarrow> 32 word" where
  "Ch x y z = (x AND y) XOR (NOT x AND z)"

definition Maj :: "32 word \<Rightarrow> 32 word \<Rightarrow> 32 word \<Rightarrow> 32 word" where
  "Maj x y z = (x AND y) XOR (x AND z) XOR (y AND z)"

definition Sigma0 :: "32 word \<Rightarrow> 32 word" where
  "Sigma0 x = rotr 2 x XOR rotr 13 x XOR rotr 22 x"

definition Sigma1 :: "32 word \<Rightarrow> 32 word" where
  "Sigma1 x = rotr 6 x XOR rotr 11 x XOR rotr 25 x"

definition sigma0 :: "32 word \<Rightarrow> 32 word" where
  "sigma0 x = rotr 7 x XOR rotr 18 x XOR drop_bit 3 x"

definition sigma1 :: "32 word \<Rightarrow> 32 word" where
  "sigma1 x = rotr 17 x XOR rotr 19 x XOR drop_bit 10 x"

text \<open>
  The round constants: the first 32 bits of the fractional parts of the cube roots of the
  first 64 primes, in decimal.
\<close>

definition K256 :: "32 word list" where
  "K256 =
     [1116352408, 1899447441, 3049323471, 3921009573, 961987163, 1508970993,
      2453635748, 2870763221, 3624381080, 310598401, 607225278, 1426881987,
      1925078388, 2162078206, 2614888103, 3248222580, 3835390401, 4022224774,
      264347078, 604807628, 770255983, 1249150122, 1555081692, 1996064986,
      2554220882, 2821834349, 2952996808, 3210313671, 3336571891, 3584528711,
      113926993, 338241895, 666307205, 773529912, 1294757372, 1396182291,
      1695183700, 1986661051, 2177026350, 2456956037, 2730485921, 2820302411,
      3259730800, 3345764771, 3516065817, 3600352804, 4094571909, 275423344,
      430227734, 506948616, 659060556, 883997877, 958139571, 1322822218,
      1537002063, 1747873779, 1955562222, 2024104815, 2227730452, 2361852424,
      2428436474, 2756734187, 3204031479, 3329325298]"

type_synonym hash_value =
  "32 word \<times> 32 word \<times> 32 word \<times> 32 word \<times> 32 word \<times> 32 word \<times> 32 word \<times> 32 word"

definition H256 :: hash_value where
  "H256 = (0x6a09e667, 0xbb67ae85, 0x3c6ef372, 0xa54ff53a,
           0x510e527f, 0x9b05688c, 0x1f83d9ab, 0x5be0cd19)"

definition be32 :: "32 word \<Rightarrow> 8 word list" where
  "be32 w = [ucast (drop_bit 24 w), ucast (drop_bit 16 w), ucast (drop_bit 8 w), ucast w]"

definition be64 :: "64 word \<Rightarrow> 8 word list" where
  "be64 w = map (\<lambda>i. ucast (drop_bit (8 * (7 - i)) w)) [0 ..< 8]"

definition pad :: "8 word list \<Rightarrow> 8 word list" where
  "pad m = m @ [0x80] @ replicate ((119 - length m mod 64) mod 64) 0
             @ be64 (of_nat (8 * length m))"

definition blocks :: "8 word list \<Rightarrow> 8 word list list" where
  "blocks p = map (\<lambda>i. take 64 (drop (64 * i) p)) [0 ..< length p div 64]"

definition word_at :: "8 word list \<Rightarrow> nat \<Rightarrow> 32 word" where
  "word_at b j =
     push_bit 24 (ucast (b ! (4 * j))) OR push_bit 16 (ucast (b ! (4 * j + 1)))
       OR push_bit 8 (ucast (b ! (4 * j + 2))) OR ucast (b ! (4 * j + 3))"

fun extend :: "nat \<Rightarrow> 32 word list \<Rightarrow> 32 word list" where
  "extend 0 w = w"
| "extend (Suc n) w =
     (let t = length w
      in extend n (w @ [sigma1 (w ! (t - 2)) + w ! (t - 7) + sigma0 (w ! (t - 15)) + w ! (t - 16)]))"

definition schedule :: "8 word list \<Rightarrow> 32 word list" where
  "schedule b = extend 48 (map (word_at b) [0 ..< 16])"

fun round :: "32 word \<times> 32 word \<Rightarrow> hash_value \<Rightarrow> hash_value" where
  "round (k, w) (a, b, c, d, e, f, g, h) =
     (let t1 = h + Sigma1 e + Ch e f g + k + w;
          t2 = Sigma0 a + Maj a b c
      in (t1 + t2, a, b, c, d + t1, e, f, g))"

fun add_hash :: "hash_value \<Rightarrow> hash_value \<Rightarrow> hash_value" where
  "add_hash (a, b, c, d, e, f, g, h) (a', b', c', d', e', f', g', h') =
     (a + a', b + b', c + c', d + d', e + e', f + f', g + g', h + h')"

definition compress :: "8 word list \<Rightarrow> hash_value \<Rightarrow> hash_value" where
  "compress b hv = add_hash hv (fold round (zip K256 (schedule b)) hv)"

fun digest_bytes :: "hash_value \<Rightarrow> 8 word list" where
  "digest_bytes (a, b, c, d, e, f, g, h) = concat (map be32 [a, b, c, d, e, f, g, h])"

definition sha256 :: "8 word list \<Rightarrow> 8 word list" where
  "sha256 m = digest_bytes (fold compress (blocks (pad m)) H256)"

text \<open>\<open>hexdigest\<close>: two lower-case hexadecimal digits for every byte.\<close>

definition hex_digits :: string where
  "hex_digits = ''0123456789abcdef''"

definition hex_byte :: "8 word \<Rightarrow> string" where
  "hex_byte b = [hex_digits ! (unat b div 16), hex_digits ! (unat b mod 16)]"

definition hexdigest :: "8 word list \<Rightarrow> string" where
  "hexdigest d = concat (map hex_byte d)"

text \<open>
  \<open>str(columns)\<close>: \<open>None\<close> for no list, and for a list the \<open>repr\<close> of its strings
  between brackets, separated by a comma and a space. The \<open>repr\<close> of a string stands
  between single quotes, or between double quotes when the string has a single quote and
  no double quote; it escapes the backslash, the quote in use, tab, line feed and carriage
  return, and writes the characters that are not printable as \<open>\xNN\<close>.
\<close>

definition dquote :: char where
  "dquote = CHR 0x22"

definition backslash :: char where
  "backslash = CHR 0x5C"

definition printable :: "char \<Rightarrow> bool" where
  "printable c =
     (let n = (of_char c :: nat) in 32 \<le> n \<and> n \<noteq> 127 \<and> \<not> (128 \<le> n \<and> n \<le> 160) \<and> n \<noteq> 173)"

definition repr_char :: "char \<Rightarrow> char \<Rightarrow> string" where
  "repr_char q c =
     (if c = backslash then [backslash, backslash]
      else if c = q then [backslash, q]
      else if c = CHR 0x09 then [backslash, CHR ''t'']
      else if c = CHR 0x0A then [backslash, CHR ''n'']
      else if c = CHR 0x0D then [backslash, CHR ''r'']
      else if printable c then [c]
      else [backslash, CHR ''x''] @ hex_byte (of_nat (of_char c)))"

definition repr :: "string \<Rightarrow> string" where
  "repr s =
     (let q = (if quote \<in> set s \<and> dquote \<notin> set s then dquote else quote)
      in [q] @ concat (map (repr_char q) s) @ [q])"

fun join_comma :: "string list \<Rightarrow> string" where
  "join_comma [] = []"
| "join_comma [x] = x"
| "join_comma (x # y # ys) = x @ '', '' @ join_comma (y # ys)"

fun str_columns :: "string list option \<Rightarrow> string" where
  "str_columns None = ''None''"
| "str_columns (Some columns) = ''['' @ join_comma (map repr columns) @ '']''"

definition get_url_hash :: "string \<Rightarrow> string" where
  "get_url_hash url = hexdigest (sha256 (encode url))"

definition get_query_hash :: "string \<Rightarrow> string list option \<Rightarrow> string" where
  "get_query_hash key columns =
     (let key = key @ ''|'' @ str_columns columns
      in hexdigest (sha256 (encode key)))"

section \<open>Properties of extract_sql_url\<close>

lemma quote_not_space: "\<not> is_space quote"
  by (simp add: is_space_def quote_def)

lemma is_FROM_length: "is_FROM kw \<Longrightarrow> length kw = 4"
proof -
  assume "is_FROM kw"
  then have "map lower kw = ''from''" unfolding is_FROM_def .
  then have "length (map lower kw) = length ''from''" by (rule arg_cong)
  then show "length kw = 4" by simp
qed

lemma match_FROM_intro:
  assumes "is_FROM kw"
  shows "match_FROM (kw @ r) = Some r"
proof -
  have "length kw = 4" using assms by (rule is_FROM_length)
  then have "take 4 (kw @ r) = kw" "drop 4 (kw @ r) = r" by simp_all
  with assms show ?thesis by (simp add: match_FROM_def)
qed

lemma match_FROM_elim:
  assumes "match_FROM s = Some r"
  shows "\<exists>kw. s = kw @ r \<and> is_FROM kw"
proof -
  have m: "is_FROM (take 4 s)"
  proof (rule ccontr)
    assume "\<not> is_FROM (take 4 s)"
    then have "match_FROM s = None" by (simp add: match_FROM_def)
    with assms show False by simp
  qed
  then have "match_FROM s = Some (drop 4 s)" by (simp add: match_FROM_def)
  with assms have "drop 4 s = r" by simp
  then have "s = take 4 s @ r" by (metis append_take_drop_id)
  with m have "s = take 4 s @ r \<and> is_FROM (take 4 s)" by simp
  then show ?thesis by (rule exI)
qed

lemma match_literal_intro:
  assumes "u \<noteq> []" and "quote \<notin> set u"
  shows "match_literal (quote # u @ quote # rest) = Some u"
proof -
  have a: "\<And>c. c \<in> set u \<Longrightarrow> c \<noteq> quote" using assms(2) by blast
  have tk: "takeWhile (\<lambda>c. c \<noteq> quote) (u @ quote # rest) = u"
    using a by (simp add: takeWhile_append2)
  have dr: "dropWhile (\<lambda>c. c \<noteq> quote) (u @ quote # rest) = quote # rest"
    using a by (simp add: dropWhile_append2)
  show ?thesis
    unfolding match_literal_def using assms(1) by (simp add: tk dr)
qed

lemma match_literal_elim:
  assumes "match_literal s = Some u"
  shows "\<exists>rest. s = quote # u @ quote # rest \<and> u \<noteq> [] \<and> quote \<notin> set u"
proof (cases s)
  case Nil
  with assms show ?thesis by (simp add: match_literal_def)
next
  case (Cons q r)
  define t where "t = dropWhile (\<lambda>c. c \<noteq> quote) r"
  define b where "b = takeWhile (\<lambda>c. c \<noteq> quote) r"
  have eq: "match_literal s =
    (if q \<noteq> quote then None
     else if b = [] then None else (case t of [] \<Rightarrow> None | _ # _ \<Rightarrow> Some b))"
    unfolding Cons match_literal_def t_def b_def by (simp add: Let_def)
  have q: "q = quote"
  proof (rule ccontr)
    assume "q \<noteq> quote"
    with eq have "match_literal s = None" by simp
    with assms show False by simp
  qed
  have b: "b \<noteq> []"
  proof
    assume "b = []"
    with eq q have "match_literal s = None" by simp
    with assms show False by simp
  qed
  have t: "t \<noteq> []"
  proof
    assume "t = []"
    with eq q b have "match_literal s = None" by simp
    with assms show False by simp
  qed
  then obtain x rest where tx: "t = x # rest" by (cases t) simp_all
  with eq q b have "match_literal s = Some b" by simp
  with assms have bu: "b = u" by simp
  have "\<not> (hd t \<noteq> quote)"
    using t hd_dropWhile [of "\<lambda>c. c \<noteq> quote" r] unfolding t_def by simp
  with tx have x: "x = quote" by simp
  have r: "r = b @ t" unfolding b_def t_def by simp
  have nq: "quote \<notin> set b"
  proof
    assume "quote \<in> set b"
    then have "quote \<noteq> quote" unfolding b_def by (rule set_takeWhileD [THEN conjunct2])
    then show False by simp
  qed
  have "s = quote # u @ quote # rest \<and> u \<noteq> [] \<and> quote \<notin> set u"
    using Cons q r tx x bu b nq by simp
  then show ?thesis by (rule exI)
qed

lemma run_intro:
  assumes "\<And>c. c \<in> set ws \<Longrightarrow> P c" and "\<not> P x"
  shows "takeWhile P (ws @ x # t) = ws" and "dropWhile P (ws @ x # t) = x # t"
  using assms by (simp_all add: takeWhile_append2 dropWhile_append2)

lemma match_here_intro:
  assumes kw: "is_FROM kw" and ws: "ws \<noteq> []" "\<And>c. c \<in> set ws \<Longrightarrow> is_space c"
    and u: "u \<noteq> []" "quote \<notin> set u"
  shows "match_here (kw @ ws @ [quote] @ u @ [quote] @ rest) = Some u"
proof -
  let ?t = "u @ quote # rest"
  have 1: "match_FROM (kw @ ws @ quote # ?t) = Some (ws @ quote # ?t)"
    using kw by (rule match_FROM_intro)
  have 2: "takeWhile is_space (ws @ quote # ?t) = ws"
    using ws(2) quote_not_space by (rule run_intro(1))
  have 3: "dropWhile is_space (ws @ quote # ?t) = quote # ?t"
    using ws(2) quote_not_space by (rule run_intro(2))
  have 4: "match_literal (quote # ?t) = Some u"
    using u by (rule match_literal_intro)
  have "match_here (kw @ ws @ quote # ?t) = Some u"
    unfolding match_here_def 1 using ws(1) by (simp only: option.case 2 3 4 if_False)
  then show ?thesis by simp
qed

lemma match_here_elim:
  assumes "match_here s = Some u"
  shows "\<exists>kw ws rest. s = kw @ ws @ [quote] @ u @ [quote] @ rest
     \<and> is_FROM kw \<and> ws \<noteq> [] \<and> (\<forall>c \<in> set ws. is_space c)
     \<and> quote \<notin> set u \<and> u \<noteq> []"
proof -
  obtain r where r: "match_FROM s = Some r"
    using assms unfolding match_here_def by (cases "match_FROM s") simp_all
  define ws where "ws = takeWhile is_space r"
  define t where "t = dropWhile is_space r"
  have eq: "match_here s = (if ws = [] then None else match_literal t)"
    unfolding match_here_def r ws_def t_def by simp
  have ws: "ws \<noteq> []"
  proof
    assume "ws = []"
    with eq have "match_here s = None" by simp
    with assms show False by simp
  qed
  with eq assms have lit: "match_literal t = Some u" by simp
  from match_FROM_elim [OF r] obtain kw where kw: "s = kw @ r" "is_FROM kw"
    by blast
  from match_literal_elim [OF lit] obtain rest
    where rest: "t = quote # u @ quote # rest" "u \<noteq> []" "quote \<notin> set u"
    by blast
  have rr: "r = ws @ t" unfolding ws_def t_def by simp
  have sp: "\<forall>c \<in> set ws. is_space c"
    unfolding ws_def using set_takeWhileD [of _ is_space r] by blast
  have "s = kw @ ws @ [quote] @ u @ [quote] @ rest
     \<and> is_FROM kw \<and> ws \<noteq> [] \<and> (\<forall>c \<in> set ws. is_space c)
     \<and> quote \<notin> set u \<and> u \<noteq> []"
    using kw(1) kw(2) rr rest ws sp by simp
  then show ?thesis by (intro exI)
qed

lemma pattern_at_0:
  "pattern_at s 0 u \<longleftrightarrow>
   (\<exists>kw ws rest. s = kw @ ws @ [quote] @ u @ [quote] @ rest
     \<and> is_FROM kw \<and> ws \<noteq> [] \<and> (\<forall>c \<in> set ws. is_space c)
     \<and> quote \<notin> set u \<and> u \<noteq> [])"
  unfolding pattern_at_def literal_at_def by auto

lemma match_here_Some: "match_here s = Some u \<longleftrightarrow> pattern_at s 0 u"
proof
  assume "match_here s = Some u"
  from match_here_elim [OF this] show "pattern_at s 0 u"
    unfolding pattern_at_0 .
next
  assume "pattern_at s 0 u"
  then obtain kw ws rest where s: "s = kw @ ws @ [quote] @ u @ [quote] @ rest"
    and kw: "is_FROM kw" and ws: "ws \<noteq> []" "\<forall>c \<in> set ws. is_space c"
    and u: "quote \<notin> set u" "u \<noteq> []"
    unfolding pattern_at_0 by blast
  from ws(2) have ws2: "\<And>c. c \<in> set ws \<Longrightarrow> is_space c" by blast
  show "match_here s = Some u"
    unfolding s using kw ws(1) ws2 u(2) u(1) by (rule match_here_intro)
qed

lemma pattern_at_Cons: "pattern_at (c # cs) (Suc i) u \<longleftrightarrow> pattern_at cs i u"
  by (simp add: pattern_at_def literal_at_def)

lemma pattern_at_Nil: "\<not> pattern_at [] i u"
  by (simp add: pattern_at_def literal_at_def)


lemma first_at_0: "pattern_at s 0 u \<Longrightarrow> first_at s i v \<longleftrightarrow> (i = 0 \<and> v = u)"
proof -
  assume p: "pattern_at s 0 u"
  then have m: "match_here s = Some u" by (simp add: match_here_Some)
  show ?thesis
  proof
    assume f: "first_at s i v"
    have "i = 0"
    proof (rule ccontr)
      assume "i \<noteq> 0"
      then have "0 < i" by simp
      with f p show False unfolding first_at_def by blast
    qed
    moreover from f this have "match_here s = Some v"
      by (simp add: first_at_def match_here_Some)
    ultimately show "i = 0 \<and> v = u" using m by simp
  next
    assume "i = 0 \<and> v = u"
    with p show "first_at s i v" by (simp add: first_at_def)
  qed
qed

lemma first_at_Suc:
  assumes "\<And>v. \<not> pattern_at (c # cs) 0 v"
  shows "(\<exists>i. first_at (c # cs) i u) \<longleftrightarrow> (\<exists>i. first_at cs i u)"
proof
  assume "\<exists>i. first_at (c # cs) i u"
  then obtain i where i: "pattern_at (c # cs) i u" "\<forall>j < i. \<forall>v. \<not> pattern_at (c # cs) j v"
    unfolding first_at_def by blast
  from i(1) assms obtain k where k: "i = Suc k" by (cases i) auto
  have "\<forall>j < k. \<forall>v. \<not> pattern_at cs j v"
  proof (intro allI impI)
    fix j v assume "j < k"
    then have "Suc j < i" using k by simp
    with i(2) have "\<not> pattern_at (c # cs) (Suc j) v" by blast
    then show "\<not> pattern_at cs j v" by (simp add: pattern_at_Cons)
  qed
  moreover from i(1) k have "pattern_at cs k u" by (simp add: pattern_at_Cons)
  ultimately have "first_at cs k u" by (simp add: first_at_def)
  then show "\<exists>i. first_at cs i u" ..
next
  assume "\<exists>i. first_at cs i u"
  then obtain i where i: "pattern_at cs i u" "\<forall>j < i. \<forall>v. \<not> pattern_at cs j v"
    unfolding first_at_def by blast
  have "\<forall>j < Suc i. \<forall>v. \<not> pattern_at (c # cs) j v"
  proof (intro allI impI)
    fix j v assume j: "j < Suc i"
    show "\<not> pattern_at (c # cs) j v"
    proof (cases j)
      case 0 then show ?thesis using assms by simp
    next
      case (Suc k)
      with j have "k < i" by simp
      with i(2) have "\<not> pattern_at cs k v" by blast
      with Suc show ?thesis by (simp add: pattern_at_Cons)
    qed
  qed
  moreover from i(1) have "pattern_at (c # cs) (Suc i) u" by (simp add: pattern_at_Cons)
  ultimately have "first_at (c # cs) (Suc i) u" by (simp add: first_at_def)
  then show "\<exists>i. first_at (c # cs) i u" ..
qed

lemma re_search_Some: "re_search sql = Some u \<longleftrightarrow> (\<exists>i. first_at sql i u)"
proof (induction sql)
  case Nil
  have "match_here [] = None" by (simp add: match_here_def match_FROM_def is_FROM_def)
  then show ?case by (simp add: first_at_def pattern_at_Nil)
next
  case (Cons c cs)
  show ?case
  proof (cases "match_here (c # cs)")
    case (Some g)
    then have g: "pattern_at (c # cs) 0 g" by (simp add: match_here_Some)
    have "re_search (c # cs) = Some u \<longleftrightarrow> u = g" using Some by auto
    also have "\<dots> \<longleftrightarrow> (\<exists>i. first_at (c # cs) i u)"
      using first_at_0 [OF g] by auto
    finally show ?thesis .
  next
    case None
    have no0: "\<And>v. \<not> pattern_at (c # cs) 0 v"
    proof
      fix v assume "pattern_at (c # cs) 0 v"
      then have "match_here (c # cs) = Some v" by (simp add: match_here_Some)
      with None show False by simp
    qed
    have "re_search (c # cs) = Some u \<longleftrightarrow> re_search cs = Some u"
      using None by simp
    also have "\<dots> \<longleftrightarrow> (\<exists>i. first_at cs i u)" by (rule Cons.IH)
    also have "\<dots> \<longleftrightarrow> (\<exists>i. first_at (c # cs) i u)"
      using first_at_Suc [OF no0] by simp
    finally show ?thesis .
  qed
qed

lemma extract_sql_url_re_search: "extract_sql_url sql = re_search sql"
  unfolding extract_sql_url_def by (cases "re_search sql") simp_all

lemma extract_sql_url_None:
  "extract_sql_url sql = None \<longleftrightarrow> (\<forall>i v. \<not> pattern_at sql i v)"
proof
  assume n: "extract_sql_url sql = None"
  show "\<forall>i v. \<not> pattern_at sql i v"
  proof (rule ccontr)
    assume "\<not> (\<forall>i v. \<not> pattern_at sql i v)"
    then have ex: "\<exists>i. \<exists>v. pattern_at sql i v" by blast
    define k where "k = (LEAST i. \<exists>v. pattern_at sql i v)"
    have "\<exists>v. pattern_at sql k v" unfolding k_def using ex by (rule LeastI_ex)
    then obtain v where v: "pattern_at sql k v" ..
    have "\<forall>j < k. \<forall>w. \<not> pattern_at sql j w"
    proof (intro allI impI)
      fix j w assume "j < k"
      then have "\<not> (\<exists>v. pattern_at sql j v)" unfolding k_def by (rule not_less_Least)
      then show "\<not> pattern_at sql j w" by blast
    qed
    with v have "first_at sql k v" by (simp add: first_at_def)
    then have "extract_sql_url sql = Some v"
      unfolding extract_sql_url_re_search re_search_Some ..
    with n show False by simp
  qed
next
  assume a: "\<forall>i v. \<not> pattern_at sql i v"
  show "extract_sql_url sql = None"
  proof (cases "extract_sql_url sql")
    case None then show ?thesis .
  next
    case (Some u)
    then have "\<exists>i. first_at sql i u" unfolding extract_sql_url_re_search re_search_Some .
    then have "\<exists>i. pattern_at sql i u" unfolding first_at_def by blast
    with a show ?thesis by blast
  qed
qed


text \<open>
  C8, as the code has it. \<open>extract_sql_url\<close> returns the contents of the literal of the
  first occurrence of the pattern: the keyword \<open>FROM\<close> in any case, one or more
  white-space characters, and a single-quoted literal whose contents are one or more
  characters other than the quote. It returns them as they stand in the text, and it
  returns nothing exactly when the pattern occurs nowhere. A match further right is never
  returned, since no position before the reported one carries the pattern.
\<close>

theorem extract_sql_url_first_match:
  "(extract_sql_url sql = Some u \<longleftrightarrow> (\<exists>i. first_at sql i u)) \<and>
   (extract_sql_url sql = None \<longleftrightarrow> (\<forall>i v. \<not> pattern_at sql i v))"
  unfolding extract_sql_url_None
  by (simp add: extract_sql_url_re_search re_search_Some)

theorem extract_sql_url_first_match_witness:
  "extract_sql_url ''SELECT * FROM 'https://x/y.parquet' WHERE k = 1'' = Some ''https://x/y.parquet''
   \<and> (\<exists>i. first_at ''SELECT * FROM 'https://x/y.parquet' WHERE k = 1'' i ''https://x/y.parquet'')"
proof -
  have e: "extract_sql_url ''SELECT * FROM 'https://x/y.parquet' WHERE k = 1''
             = Some ''https://x/y.parquet''"
    by (simp add: extract_sql_url_def match_here_def match_FROM_def match_literal_def is_FROM_def lower_def
        is_space_def quote_def)
  from e extract_sql_url_first_match [THEN conjunct1, THEN iffD1, OF e] show ?thesis
    by (rule conjI)
qed

text \<open>
  C8, as the specification words it, admits every single-quoted literal after the keyword,
  the empty one too. In \<^verbatim>\<open>FROM ''\<close> a literal follows the keyword and one space, at
  position 0, and its contents are the empty string; the function returns nothing, not the
  empty string.
\<close>

theorem extract_sql_url_empty_literal_counterexample:
  "literal_at (''FROM '' @ [quote, quote]) 0 [] \<and>
   extract_sql_url (''FROM '' @ [quote, quote]) = None"
proof
  have "drop 0 (''FROM '' @ [quote, quote]) = ''FROM'' @ '' '' @ [quote] @ [] @ [quote] @ []
      \<and> 0 \<le> length (''FROM '' @ [quote, quote])
      \<and> is_FROM ''FROM'' \<and> '' '' \<noteq> [] \<and> (\<forall>c \<in> set '' ''. is_space c) \<and> quote \<notin> set []"
    by (simp add: is_FROM_def lower_def is_space_def)
  then show "literal_at (''FROM '' @ [quote, quote]) 0 []"
    unfolding literal_at_def by (intro exI)
  show "extract_sql_url (''FROM '' @ [quote, quote]) = None"
    by (simp add: extract_sql_url_def match_here_def match_FROM_def match_literal_def is_FROM_def lower_def
        is_space_def quote_def)
qed

text \<open>
  C10. The pattern has no word boundary before the keyword: in
  \<^verbatim>\<open>SELECT date_from 'x' FROM t\<close> the letters \<open>from\<close> are the tail of the ident
  \<open>date_from\<close>, a space and a single-quoted literal follow, and the function returns the
  contents of that literal.
\<close>

theorem extract_sql_url_no_word_boundary:
  "extract_sql_url ''SELECT date_from 'x' FROM t'' = Some ''x''"
  by (simp add: extract_sql_url_def match_here_def match_FROM_def match_literal_def is_FROM_def lower_def
      is_space_def quote_def)

section \<open>Properties of extract_partition_column\<close>









section \<open>No error escapes the extractors\<close>

lemma option_cases: "x = None \<or> (\<exists>c. x = Some c)"
  by (cases x) simp_all

text \<open>
  C6. Whatever the parser does on a text, \<open>extract_partition_column\<close> returns a string or
  nothing: an exception that the parser raises, and any exception of the body, becomes
  nothing. \<open>extract_sql_url\<close> has no failing step and returns a string or nothing.
\<close>

theorem extractors_total:
  "(parse_one sql = Inl e \<longrightarrow> extract_partition_column parse_one sql = None) \<and>
   (partition_column_body parse_one sql = Inl e \<longrightarrow>
      extract_partition_column parse_one sql = None) \<and>
   (extract_partition_column parse_one sql = None
      \<or> (\<exists>c. extract_partition_column parse_one sql = Some c)) \<and>
   (extract_sql_url sql = None \<or> (\<exists>u. extract_sql_url sql = Some u))"
proof (intro conjI)
  show "parse_one sql = Inl e \<longrightarrow> extract_partition_column parse_one sql = None"
    by (simp add: extract_partition_column_def partition_column_body_def)
  show "partition_column_body parse_one sql = Inl e \<longrightarrow>
      extract_partition_column parse_one sql = None"
    by (simp add: extract_partition_column_def)
  show "extract_partition_column parse_one sql = None
      \<or> (\<exists>c. extract_partition_column parse_one sql = Some c)"
    by (rule option_cases)
  show "extract_sql_url sql = None \<or> (\<exists>u. extract_sql_url sql = Some u)"
    by (rule option_cases)
qed

text \<open>
  The malformed text \<^verbatim>\<open>SELEC * FRM\<close> of the specification, with a parser that raises a
  \<open>ParseError\<close> on it: both extractors return nothing.
\<close>

theorem extractors_total_witness:
  "extract_partition_column (\<lambda>s. Inl (Exn ParseError ''Invalid expression / Unexpected token''))
      ''SELEC * FRM'' = None \<and>
   extract_sql_url ''SELEC * FRM'' = None"
proof
  have "Inl (Exn ParseError ''Invalid expression / Unexpected token'') =
        (Inl (Exn ParseError ''Invalid expression / Unexpected token'') :: exn + node) \<longrightarrow>
      extract_partition_column (\<lambda>s. Inl (Exn ParseError ''Invalid expression / Unexpected token''))
        ''SELEC * FRM'' = None"
    by (rule extractors_total [of "\<lambda>s. Inl (Exn ParseError ''Invalid expression / Unexpected token'')"
          "''SELEC * FRM''" "Exn ParseError ''Invalid expression / Unexpected token''",
          THEN conjunct1])
  then show "extract_partition_column
      (\<lambda>s. Inl (Exn ParseError ''Invalid expression / Unexpected token''))
      ''SELEC * FRM'' = None"
    by (simp only: simp_thms)
  show "extract_sql_url ''SELEC * FRM'' = None"
    by (simp add: extract_sql_url_def match_here_def match_FROM_def match_literal_def
        is_FROM_def lower_def is_space_def quote_def)
qed

section \<open>Properties of atomic_write\<close>

lemmas fs_defs = mkdir_def exists_def unlink_def open_file_def write_file_def replace_def
  unlink_stale_def unencodable_def attempt_body_def

lemma staging_data_json: "staging_path data_json = Inr data_tmp"
  by (simp add: staging_path_def with_suffix_def suffix_def path_name_def data_json_def data_tmp_def)

lemma staging_data_csv: "staging_path data_csv = Inr data_tmp"
  by (simp add: staging_path_def with_suffix_def suffix_def path_name_def data_csv_def data_tmp_def)

lemma staging_data_tmp: "staging_path data_tmp = Inr data_tmp"
  by (simp add: staging_path_def with_suffix_def suffix_def path_name_def data_tmp_def)

lemma data_distinct: "data_json \<noteq> data_csv" "data_json \<noteq> data_tmp" "data_csv \<noteq> data_tmp"
  by (simp_all add: data_json_def data_csv_def data_tmp_def)

lemma sharing_violation_lock: "is_lock_error (raised sharing_violation)"
  by (simp add: is_lock_error_def sharing_violation_def used_by_another_process_def)


lemma no_space_no_lock: "\<not> is_lock_error (raised no_space)"
  by (simp add: is_lock_error_def no_space_def permission_denied_def used_by_another_process_def)

lemma isinstance_raised: "isinstance_OSError (raised err)"
  by (cases err) simp_all

lemma disk_full_run:
  "atomic_write disk_full_env data_tmp (Str ''new'') 3 [data_tmp \<mapsto> Str ''old''] =
     (Inl (raised no_space),
      \<lparr>files_of = Map.empty, trace = [Started 0, Caught (raised no_space)]\<rparr>)"
proof -
  have b: "attempt_body disk_full_env 0 data_tmp data_tmp Mode_w (Str ''new'') [data_tmp \<mapsto> Str ''old'']
      = (Inl (raised no_space), [data_tmp \<mapsto> Str ''n''])"
    by (simp add: fs_defs disk_full_env_def)
  have u: "unlink_stale disk_full_env Cleanup data_tmp [data_tmp \<mapsto> Str ''n''] = Map.empty"
    by (simp add: fs_defs disk_full_env_def)
  have n: "[0 ..< nat 3] = [0, 1, 2]" by (simp add: upt_rec)
  show ?thesis
    unfolding atomic_write_def staging_data_tmp n
    by (simp add: b u isinstance_raised no_space_no_lock)
qed

lemma caught_append: "caught (xs @ ys) = caught xs @ caught ys"
  by (induction xs rule: caught.induct) simp_all

lemma sleeps_append: "sleeps (xs @ ys) = sleeps xs @ sleeps ys"
  by (induction xs rule: sleeps.induct) simp_all

lemma started_append: "started (xs @ ys) = started xs @ started ys"
  by (induction xs rule: started.induct) simp_all

text \<open>One round of the loop, by the outcome of the attempt.\<close>

lemma attempts_returned:
  assumes "attempt_body env k path temp m content (files_of st) = (Inr u, fs)"
  shows "attempts env n path temp m content (k # rest) l st =
           (Returned, \<lparr>files_of = fs, trace = trace st @ [Started k]\<rparr>)"
  using assms by simp

lemma attempts_retry:
  assumes "attempt_body env k path temp m content (files_of st) = (Inl e, fs)"
    and "is_lock_error e" and "int k < n - 1"
  shows "attempts env n path temp m content (k # rest) l st =
           attempts env n path temp m content rest (Some e)
             \<lparr>files_of = fs, trace = trace st @ [Started k, Caught e, Slept (2 ^ k * 10)]\<rparr>"
proof -
  from assms(2) have "isinstance_OSError e" by (simp add: is_lock_error_def)
  with assms show ?thesis by simp
qed

lemma attempts_break:
  assumes "attempt_body env k path temp m content (files_of st) = (Inl e, fs)"
    and "\<not> (is_lock_error e \<and> int k < n - 1)"
  shows "attempts env n path temp m content (k # rest) l st =
           (Fell_through (Some e), \<lparr>files_of = fs, trace = trace st @ [Started k, Caught e]\<rparr>)"
  using assms by auto



text \<open>The loop on a persistently locked target.\<close>

lemma attempts_locked:
  assumes lock: "persistently_locked env path temp content"
  shows "k < n \<Longrightarrow> n = nat max_retries \<Longrightarrow>
    \<exists>e st'. attempts env max_retries path temp (mode_of content) content [k ..< n] l st
               = (Fell_through (Some e), st') \<and> is_lock_error e
        \<and> started (trace st') = started (trace st) @ [k ..< n]
        \<and> sleeps (trace st') = sleeps (trace st) @ map (\<lambda>a. 2 ^ a * 10) [k ..< n - 1]
        \<and> caught (trace st') \<noteq> [] \<and> last (caught (trace st')) = e"
proof (induction "n - k" arbitrary: k l st)
  case 0
  then show ?case by simp
next
  case (Suc d)
  from lock obtain e where e: "fst (attempt_body env k path temp (mode_of content) content (files_of st)) = Inl e"
    "is_lock_error e"
    unfolding persistently_locked_def by blast
  then obtain fs where b: "attempt_body env k path temp (mode_of content) content (files_of st) = (Inl e, fs)"
    by (cases "attempt_body env k path temp (mode_of content) content (files_of st)") simp
  have up: "[k ..< n] = k # [Suc k ..< n]" using Suc.prems(1) by (simp add: upt_rec)
  show ?case
  proof (cases "Suc k < n")
    case False
    with Suc.prems have kn: "n = Suc k" by simp
    with Suc.prems(2) have "\<not> int k < max_retries - 1" by linarith
    then have "attempts env max_retries path temp (mode_of content) content (k # []) l st =
        (Fell_through (Some e), \<lparr>files_of = fs, trace = trace st @ [Started k, Caught e]\<rparr>)"
      using attempts_break [OF b] by simp
    then show ?thesis
      using e(2) kn by (simp add: started_append sleeps_append caught_append)
  next
    case True
    with Suc.prems(2) have lt: "int k < max_retries - 1" by linarith
    let ?st = "\<lparr>files_of = fs, trace = trace st @ [Started k, Caught e, Slept (2 ^ k * 10)]\<rparr>"
    have step: "attempts env max_retries path temp (mode_of content) content [k ..< n] l st =
        attempts env max_retries path temp (mode_of content) content [Suc k ..< n] (Some e) ?st"
      unfolding up using attempts_retry [OF b e(2) lt] by simp
    have "d = n - Suc k" using Suc.hyps(2) by simp
    from Suc.hyps(1) [OF this True Suc.prems(2), of "Some e" ?st]
    obtain e' st' where r:
      "attempts env max_retries path temp (mode_of content) content [Suc k ..< n] (Some e) ?st
         = (Fell_through (Some e'), st')" "is_lock_error e'"
      "started (trace st') = started (trace ?st) @ [Suc k ..< n]"
      "sleeps (trace st') = sleeps (trace ?st) @ map (\<lambda>a. 2 ^ a * 10) [Suc k ..< n - 1]"
      "caught (trace st') \<noteq> []" "last (caught (trace st')) = e'"
      by blast
    have up2: "[k ..< n - 1] = k # [Suc k ..< n - 1]" using True by (simp add: upt_rec)
    have "started (trace st') = started (trace st) @ [k ..< n]"
      using r(3) up by (simp add: started_append)
    moreover have "sleeps (trace st') = sleeps (trace st) @ map (\<lambda>a. 2 ^ a * 10) [k ..< n - 1]"
      using r(4) up2 by (simp add: sleeps_append)
    ultimately show ?thesis using step r(1,2,5,6) by simp
  qed
qed

text \<open>The runs of the three environments.\<close>

lemma locked_attempt:
  "attempt_body locked_env k data_json data_tmp Mode_w (Str ''new'') fs =
     (Inl (raised sharing_violation), fs(data_tmp \<mapsto> Str ''new''))"
  by (simp add: fs_defs locked_env_def)

lemma locked_env_persistently_locked:
  "persistently_locked locked_env data_json data_tmp (Str ''new'')"
  unfolding persistently_locked_def
  by (simp add: locked_attempt sharing_violation_lock)

lemma locked_run:
  "atomic_write locked_env data_json (Str ''new'') 3 Map.empty =
     (Inl (raised sharing_violation),
      \<lparr>files_of = [data_tmp \<mapsto> Str ''new''],
       trace = [Started 0, Caught (raised sharing_violation), Slept 10,
                Started 1, Caught (raised sharing_violation), Slept 20,
                Started 2, Caught (raised sharing_violation)]\<rparr>)"
proof -
  have n: "[0 ..< nat 3] = [0, 1, 2]" by (simp add: upt_rec)
  have u: "unlink_stale locked_env Cleanup data_tmp [data_tmp \<mapsto> Str ''new'']
             = [data_tmp \<mapsto> Str ''new'']"
    by (simp add: fs_defs locked_env_def)
  show ?thesis
    unfolding atomic_write_def staging_data_json n
    by (simp add: locked_attempt isinstance_raised sharing_violation_lock u)
qed






text \<open>
  C4, as the code has it. On a persistently locked target, \<open>atomic_write\<close> with
  \<open>max_retries\<close> at least 1 makes exactly \<open>max_retries\<close> attempts, numbered from 0, and
  then fails with a lock error. It sleeps \<open>2 ^ attempt * 10\<close> milliseconds after every
  attempt but the last: with three attempts, 10 and 20 milliseconds.
\<close>

theorem locked_target_attempts_and_sleeps:
  assumes "staging_path path = Inr temp" and "persistently_locked env path temp content"
    and "0 < max_retries"
  shows "\<exists>e. fst (atomic_write env path content max_retries fs) = Inl e \<and> is_lock_error e \<and>
     started (trace (snd (atomic_write env path content max_retries fs))) = [0 ..< nat max_retries] \<and>
     sleeps (trace (snd (atomic_write env path content max_retries fs)))
       = map (\<lambda>attempt. 2 ^ attempt * 10) [0 ..< nat max_retries - 1]"
proof -
  have "0 < nat max_retries" using assms(3) by simp
  from attempts_locked [OF assms(2) this refl, of None "\<lparr>files_of = fs, trace = []\<rparr>"]
  obtain e st' where r:
    "attempts env max_retries path temp (mode_of content) content [0 ..< nat max_retries] None
        \<lparr>files_of = fs, trace = []\<rparr> = (Fell_through (Some e), st')"
    "is_lock_error e"
    "started (trace st') = [0 ..< nat max_retries]"
    "sleeps (trace st') = map (\<lambda>a. 2 ^ a * 10) [0 ..< nat max_retries - 1]"
    by auto
  have "atomic_write env path content max_retries fs =
      (Inl e, st'\<lparr>files_of := unlink_stale env Cleanup temp (files_of st')\<rparr>)"
    using r(1) assms(1) by (simp add: atomic_write_def)
  with r(2,3,4) show ?thesis by simp
qed

text \<open>A failed call leaves a target other than its staging path as it was.\<close>

lemma unlink_stale_other: "p \<noteq> temp \<Longrightarrow> unlink_stale env ph temp fs p = fs p"
  by (simp add: unlink_stale_def unlink_def exists_def split: option.splits)

lemma open_file_other: "p \<noteq> temp \<Longrightarrow> snd (open_file env ph temp m fs) p = fs p"
  by (simp add: open_file_def split: option.splits)

lemma write_file_other: "p \<noteq> temp \<Longrightarrow> snd (write_file env k temp content fs) p = fs p"
  by (simp add: write_file_def split: option.splits)

lemma replace_fails: "replace env ph src dst fs = (Inl e, fs') \<Longrightarrow> fs' = fs"
  by (simp add: replace_def split: option.splits if_splits)

lemma mkdir_files: "snd (mkdir env ph dir fs) = fs"
  by (simp add: mkdir_def split: option.splits)

lemma attempt_body_failure_keeps:
  assumes "temp \<noteq> path" and "attempt_body env k path temp m content fs = (Inl e, fs')"
  shows "fs' path = fs path"
proof -
  have p: "path \<noteq> temp" using assms(1) by blast
  obtain r1 f1 where 1: "mkdir env (Attempt k) (parent path) fs = (r1, f1)"
    by (cases "mkdir env (Attempt k) (parent path) fs")
  then have f1: "f1 = fs" using mkdir_files [of env "Attempt k" "parent path" fs] by simp
  show ?thesis
  proof (cases r1)
    case (Inl e1)
    with 1 assms(2) f1 show ?thesis by (simp add: attempt_body_def)
  next
    case (Inr u1)
    let ?f = "unlink_stale env (Attempt k) temp fs"
    obtain r2 f2 where 2: "open_file env (Attempt k) temp m ?f = (r2, f2)"
      by (cases "open_file env (Attempt k) temp m ?f")
    then have f2: "f2 path = fs path"
      using open_file_other [OF p, of env "Attempt k" m ?f] unlink_stale_other [OF p, of env "Attempt k" fs]
      by simp
    show ?thesis
    proof (cases r2)
      case (Inl e2)
      with 1 2 Inr f1 f2 assms(2) show ?thesis by (simp add: attempt_body_def)
    next
      case u2: (Inr u2)
      obtain r3 f3 where 3: "write_file env k temp content f2 = (r3, f3)"
        by (cases "write_file env k temp content f2")
      then have f3: "f3 path = fs path"
        using write_file_other [OF p, of env k content f2] f2 by simp
      show ?thesis
      proof (cases r3)
        case (Inl e3)
        with 1 2 3 Inr u2 f1 f3 assms(2) show ?thesis by (simp add: attempt_body_def)
      next
        case u3: (Inr u3)
        with 1 2 3 Inr u2 f1 assms(2)
        have "replace env (Attempt k) temp path f3 = (Inl e, fs')"
          by (simp add: attempt_body_def)
        then have "fs' = f3" by (rule replace_fails)
        with f3 show ?thesis by simp
      qed
    qed
  qed
qed

lemma attempts_failure_keeps:
  assumes "temp \<noteq> path"
  shows "attempts env n path temp m content ks l st = (Fell_through l', st') \<Longrightarrow>
         files_of st' path = files_of st path"
proof (induction ks arbitrary: l st)
  case Nil
  then show ?case by simp
next
  case (Cons k rest)
  obtain r fs where b: "attempt_body env k path temp m content (files_of st) = (r, fs)"
    by (cases "attempt_body env k path temp m content (files_of st)")
  show ?case
  proof (cases r)
    case (Inr u)
    with b have "attempts env n path temp m content (k # rest) l st =
        (Returned, \<lparr>files_of = fs, trace = trace st @ [Started k]\<rparr>)"
      by simp
    with Cons.prems show ?thesis by simp
  next
    case (Inl e)
    with b have b': "attempt_body env k path temp m content (files_of st) = (Inl e, fs)" by simp
    have keep: "fs path = files_of st path"
      using attempt_body_failure_keeps [OF assms b'] .
    show ?thesis
    proof (cases "is_lock_error e \<and> int k < n - 1")
      case False
      from attempts_break [OF b' False] Cons.prems
      have "st' = \<lparr>files_of = fs, trace = trace st @ [Started k, Caught e]\<rparr>" by simp
      with keep show ?thesis by simp
    next
      case True
      let ?st = "\<lparr>files_of = fs, trace = trace st @ [Started k, Caught e, Slept (2 ^ k * 10)]\<rparr>"
      from True have a: "is_lock_error e" and c: "int k < n - 1" by simp_all
      from attempts_retry [OF b' a c] Cons.prems
      have "attempts env n path temp m content rest (Some e) ?st = (Fell_through l', st')"
        by simp
      from Cons.IH [OF this] keep show ?thesis by simp
    qed
  qed
qed

lemma failed_write_keeps_target:
  assumes "staging_path path = Inr temp" and "temp \<noteq> path"
    and "fst (atomic_write env path content max_retries fs) = Inl e"
  shows "files_of (snd (atomic_write env path content max_retries fs)) path = fs path"
proof -
  let ?m = "mode_of content"
  let ?st0 = "\<lparr>files_of = fs, trace = []\<rparr>"
  have p: "path \<noteq> temp" using assms(2) by blast
  obtain r st where a: "attempts env max_retries path temp ?m content [0 ..< nat max_retries] None ?st0
      = (r, st)"
    by (cases "attempts env max_retries path temp ?m content [0 ..< nat max_retries] None ?st0")
  show ?thesis
  proof (cases r)
    case Returned
    with a assms(1) have "fst (atomic_write env path content max_retries fs) = Inr ()"
      by (simp add: atomic_write_def)
    with assms(3) show ?thesis by simp
  next
    case (Fell_through l)
    with a have "attempts env max_retries path temp ?m content [0 ..< nat max_retries] None ?st0
      = (Fell_through l, st)" by simp
    from attempts_failure_keeps [OF assms(2) this] have k: "files_of st path = fs path" by simp
    have "snd (atomic_write env path content max_retries fs) =
        st\<lparr>files_of := unlink_stale env Cleanup temp (files_of st)\<rparr>"
      using a Fell_through assms(1) by (simp add: atomic_write_def)
    then show ?thesis using k unlink_stale_other [OF p, of env Cleanup "files_of st"] by simp
  qed
qed

section \<open>The staging path\<close>

text \<open>
  C1 fails on the code. \<open>with_suffix\<close> replaces the suffix of the name, so the two
  targets \<open>cache/data.json\<close> and \<open>cache/data.csv\<close> have the same staging path
  \<open>cache/data.tmp\<close>, and the staging path of the target \<open>cache/data.tmp\<close> is that target
  itself, which is also the staging path of the other two.
\<close>

theorem staging_path_collision:
  "data_json \<noteq> data_csv \<and> staging_path data_json = Inr data_tmp \<and>
   staging_path data_csv = Inr data_tmp \<and> staging_path data_tmp = Inr data_tmp"
  by (simp add: staging_data_json staging_data_csv staging_data_tmp data_distinct)

section \<open>Runs of atomic_write\<close>



text \<open>
  C3 fails on the code. The target \<open>cache/data.tmp\<close> is its own staging path. With the old
  contents \<open>old\<close> in it and a disk that is full, the call removes the target as a stale
  staging file, opens it anew, writes one character of the payload before the error, and
  removes it again in the clean-up: the call fails and the target is gone.
\<close>

theorem failed_write_destroys_tmp_target:
  "staging_path data_tmp = Inr data_tmp \<and>
   fst (atomic_write disk_full_env data_tmp (Str ''new'') 3 [data_tmp \<mapsto> Str ''old''])
     = Inl (raised no_space) \<and>
   [data_tmp \<mapsto> Str ''old''] data_tmp = Some (Str ''old'') \<and>
   files_of (snd (atomic_write disk_full_env data_tmp (Str ''new'') 3 [data_tmp \<mapsto> Str ''old'']))
     data_tmp = None"
  by (simp add: disk_full_run staging_data_tmp)

text \<open>
  C4, as the specification words it, fails: on a target that stays locked, the call with
  three attempts sleeps twice, 10 and 20 milliseconds, 30 in all, not three times and 70.
\<close>

theorem locked_target_sleeps_counterexample:
  "persistently_locked locked_env data_json data_tmp (Str ''new'') \<and>
   started (trace (snd (atomic_write locked_env data_json (Str ''new'') 3 Map.empty))) = [0, 1, 2] \<and>
   sleeps (trace (snd (atomic_write locked_env data_json (Str ''new'') 3 Map.empty))) = [10, 20] \<and>
   sum_list (sleeps (trace (snd (atomic_write locked_env data_json (Str ''new'') 3 Map.empty)))) = 30"
  by (simp add: locked_run locked_env_persistently_locked)

theorem locked_target_attempts_and_sleeps_witness:
  "staging_path data_json = Inr data_tmp \<and>
   persistently_locked locked_env data_json data_tmp (Str ''new'') \<and> (0 :: int) < 3 \<and>
   (\<exists>e. fst (atomic_write locked_env data_json (Str ''new'') 3 Map.empty) = Inl e \<and>
        is_lock_error e \<and>
        started (trace (snd (atomic_write locked_env data_json (Str ''new'') 3 Map.empty))) = [0, 1, 2] \<and>
        sleeps (trace (snd (atomic_write locked_env data_json (Str ''new'') 3 Map.empty))) = [10, 20])"
proof -
  have 3: "(0 :: int) < 3" by simp
  have n: "[0 ..< nat 3] = [0, 1, 2]" "[0 ..< nat 3 - 1] = [0, 1]" by (simp_all add: upt_rec)
  from locked_target_attempts_and_sleeps [OF staging_data_json locked_env_persistently_locked 3,
      of Map.empty]
  have "\<exists>e. fst (atomic_write locked_env data_json (Str ''new'') 3 Map.empty) = Inl e \<and>
        is_lock_error e \<and>
        started (trace (snd (atomic_write locked_env data_json (Str ''new'') 3 Map.empty))) = [0, 1, 2] \<and>
        sleeps (trace (snd (atomic_write locked_env data_json (Str ''new'') 3 Map.empty))) = [10, 20]"
    unfolding n by simp
  with staging_data_json locked_env_persistently_locked 3 show ?thesis by (intro conjI)
qed



section \<open>Properties of the cache keys\<close>

lemma hex_digits_length: "length hex_digits = 16"
  by (simp add: hex_digits_def)

lemma hex_byte_length: "length (hex_byte b) = 2"
  by (simp add: hex_byte_def)

lemma unat_byte: "unat (b :: 8 word) < 256"
  using unsigned_less [of b, where ?'a = nat] by simp

lemma hex_byte_digits: "list_all (\<lambda>c. c \<in> set hex_digits) (hex_byte b)"
proof -
  have "unat b div 16 < length hex_digits"
    using unat_byte [of b] by (simp add: hex_digits_length)
  then have 1: "hex_digits ! (unat b div 16) \<in> set hex_digits" by (rule nth_mem)
  have "unat b mod 16 < length hex_digits" by (simp add: hex_digits_length)
  then have 2: "hex_digits ! (unat b mod 16) \<in> set hex_digits" by (rule nth_mem)
  from 1 2 show ?thesis by (simp add: hex_byte_def)
qed

lemma hexdigest_length: "length (hexdigest d) = 2 * length d"
  by (induction d) (simp_all add: hexdigest_def hex_byte_length)

lemma hexdigest_digits: "list_all (\<lambda>c. c \<in> set hex_digits) (hexdigest d)"
  by (induction d) (simp_all add: hexdigest_def hex_byte_digits)

lemma digest_bytes_length: "length (digest_bytes hv) = 32"
  by (cases hv rule: digest_bytes.cases) (simp add: be32_def)

lemma sha256_length: "length (sha256 m) = 32"
  by (simp add: sha256_def digest_bytes_length)

text \<open>
  C9. \<open>get_url_hash\<close> and \<open>get_query_hash\<close> are functions of their arguments alone, so
  equal inputs give equal keys, and every key is 64 characters long, each of them one of
  the sixteen lower-case hexadecimal digits, whatever the input.
\<close>

theorem cache_keys_fixed_format:
  "length (get_url_hash url) = 64 \<and>
   list_all (\<lambda>c. c \<in> set hex_digits) (get_url_hash url) \<and>
   length (get_query_hash key columns) = 64 \<and>
   list_all (\<lambda>c. c \<in> set hex_digits) (get_query_hash key columns) \<and>
   (url = url' \<longrightarrow> get_url_hash url = get_url_hash url') \<and>
   (key = key' \<and> columns = columns' \<longrightarrow>
      get_query_hash key columns = get_query_hash key' columns')"
  by (simp add: get_url_hash_def get_query_hash_def hexdigest_length hexdigest_digits
      sha256_length)

text \<open>The test vector of FIPS 180-4 for the message \<open>abc\<close>.\<close>

lemma abc_digest:
  "get_url_hash ''abc'' = ''ba7816bf8f01cfea414140de5dae2223b00361a396177a9cb410ff61f20015ad''"
  by code_simp

theorem cache_keys_fixed_format_witness:
  "get_url_hash ''abc'' = ''ba7816bf8f01cfea414140de5dae2223b00361a396177a9cb410ff61f20015ad'' \<and>
   length (get_url_hash ''abc'') = 64 \<and>
   list_all (\<lambda>c. c \<in> set hex_digits) (get_url_hash ''abc'') \<and>
   get_url_hash ''abc'' = get_url_hash ''abc'' \<and>
   length (get_query_hash ''k1'' (Some [''a'', ''b''])) = 64 \<and>
   get_query_hash ''k1'' (Some [''a'', ''b'']) = get_query_hash ''k1'' (Some [''a'', ''b''])"
proof -
  note t = cache_keys_fixed_format [of "''abc''" "''k1''" "Some [''a'', ''b'']" "''abc''" "''k1''"
      "Some [''a'', ''b'']"]
  have 1: "length (get_url_hash ''abc'') = 64" using t by (rule conjunct1)
  have 2: "list_all (\<lambda>c. c \<in> set hex_digits) (get_url_hash ''abc'')"
    using t [THEN conjunct2] by (rule conjunct1)
  have 3: "length (get_query_hash ''k1'' (Some [''a'', ''b''])) = 64"
    using t [THEN conjunct2, THEN conjunct2] by (rule conjunct1)
  from abc_digest 1 2 3 show ?thesis by (intro conjI refl)
qed

end
